theory Spec2Isabelle
  imports Complex_Main
begin

section \<open>Strings and dictionaries as the crawler uses them\<close>

text \<open>
  URLs, content types and page bodies are Python strings and byte strings; they are
  modelled as lists of characters. A \<^typ>\<open>char\<close> covers the code points below 256, which
  is all that the operations below look at.
\<close>

type_synonym url = string

text \<open>\<^verbatim>\<open>str.strip()\<close> with no argument removes the characters for which
  \<^verbatim>\<open>str.isspace()\<close> holds, at both ends.\<close>

definition isspace :: "char \<Rightarrow> bool" where
  "isspace c = (of_char c \<in> {9, 10, 11, 12, 13, 28, 29, 30, 31, 32, 133, 160 :: nat})"

definition strip :: "string \<Rightarrow> string" where
  "strip s = rev (dropWhile isspace (rev (dropWhile isspace s)))"

text \<open>\<^verbatim>\<open>s.split(';')[0]\<close>: the text before the first semicolon, all of it when there is
  none.\<close>

definition split_first :: "char \<Rightarrow> string \<Rightarrow> string" where
  "split_first sep s = takeWhile (\<lambda>c. c \<noteq> sep) s"

text \<open>\<^verbatim>\<open>str.lower()\<close> on the code points below 256: the ASCII capitals and the Latin-1
  capitals (the multiplication sign 215 apart) move up by 32.\<close>

definition lower_char :: "char \<Rightarrow> char" where
  "lower_char c =
     (let n = (of_char c :: nat) in
      if (65 \<le> n \<and> n \<le> 90) \<or> (192 \<le> n \<and> n \<le> 222 \<and> n \<noteq> 215)
      then char_of (n + 32) else c)"

definition lower :: "string \<Rightarrow> string" where
  "lower s = map lower_char s"

text \<open>\<^verbatim>\<open>a in b\<close> on strings (substring), \<^verbatim>\<open>b.startswith(a)\<close> and
  \<^verbatim>\<open>b.endswith(a)\<close>.\<close>

definition startswith :: "string \<Rightarrow> string \<Rightarrow> bool" where
  "startswith b a = (take (length a) b = a)"

definition endswith :: "string \<Rightarrow> string \<Rightarrow> bool" where
  "endswith b a = (length a \<le> length b \<and> drop (length b - length a) b = a)"

fun contains :: "string \<Rightarrow> string \<Rightarrow> bool" where
  "contains a [] = (a = [])"
| "contains a (c # cs) = (startswith (c # cs) a \<or> contains a cs)"

text \<open>
  A \<^verbatim>\<open>Counter\<close> (and the \<^verbatim>\<open>file_sizes\<close> dictionary) is a dictionary from keys to
  counts that keeps the order in which the keys came: an association list with one entry
  a key. \<^verbatim>\<open>d[k] += 1\<close> adds one to the entry of \<open>k\<close>, creating it at 1 when a Counter
  has none.
\<close>

type_synonym 'k counter = "('k \<times> nat) list"

fun counter_incr :: "'k \<Rightarrow> 'k counter \<Rightarrow> 'k counter" where
  "counter_incr k [] = [(k, 1)]"
| "counter_incr k ((k', n) # rest) =
     (if k = k' then (k', n + 1) # rest else (k', n) # counter_incr k rest)"

definition counter_get :: "'k counter \<Rightarrow> 'k \<Rightarrow> nat" where
  "counter_get d k = (case map_of d k of None \<Rightarrow> 0 | Some n \<Rightarrow> n)"

definition counter_total :: "'k counter \<Rightarrow> nat" where
  "counter_total d = sum_list (map snd d)"


section \<open>StatisticsCollector\<close>

text \<open>
  The fields of \<^verbatim>\<open>StatisticsCollector.__init__\<close>. The lock serialises the methods, so
  each method is one atomic function on this record.
\<close>

record collector =
  fetch_attempts :: "(url \<times> int) list"
  successful_visits :: "(url \<times> int \<times> nat \<times> string) list"
  discovered_urls :: "(url \<times> string) list"
  status_codes :: "int counter"
  file_sizes :: "string counter"
  content_types :: "string counter"
  unique_urls_extracted :: "url set"
  unique_urls_within_site :: "url set"
  unique_urls_outside_site :: "url set"
  visited_urls :: "url set"

definition size_ranges :: "string list" where
  "size_ranges = [''< 1KB'', ''1KB ~ <10KB'', ''10KB ~ <100KB'', ''100KB ~ <1MB'', ''>= 1MB'']"

definition new_collector :: collector where
  "new_collector =
     \<lparr> fetch_attempts = [], successful_visits = [], discovered_urls = [],
       status_codes = [],
       file_sizes = map (\<lambda>k. (k, 0)) size_ranges,
       content_types = [],
       unique_urls_extracted = {}, unique_urls_within_site = {},
       unique_urls_outside_site = {}, visited_urls = {} \<rparr>"

definition add_fetch_attempt :: "url \<Rightarrow> int \<Rightarrow> collector \<Rightarrow> collector" where
  "add_fetch_attempt u status_code c =
     c \<lparr> fetch_attempts := fetch_attempts c @ [(u, status_code)],
         status_codes := counter_incr status_code (status_codes c) \<rparr>"

text \<open>
  \<^verbatim>\<open>size_kb = size / 1024\<close> is Python's true division. Dividing an integer by a power of
  two is exact in binary floating point, so the quotient is taken in the reals.
\<close>

definition size_range :: "int \<Rightarrow> string" where
  "size_range sz =
     (let size_kb = (real_of_int sz / 1024 :: real) in
      if size_kb < 1 then ''< 1KB''
      else if size_kb < 10 then ''1KB ~ <10KB''
      else if size_kb < 100 then ''10KB ~ <100KB''
      else if size_kb < 1024 then ''100KB ~ <1MB''
      else ''>= 1MB'')"

definition add_successful_visit ::
  "url \<Rightarrow> int \<Rightarrow> nat \<Rightarrow> string \<Rightarrow> collector \<Rightarrow> collector" where
  "add_successful_visit u sz outlinks content_type c =
     (let clean_content_type = strip (split_first CHR '';'' content_type) in
      c \<lparr> successful_visits := successful_visits c @ [(u, sz, outlinks, clean_content_type)],
          content_types := counter_incr clean_content_type (content_types c),
          visited_urls := insert u (visited_urls c),
          file_sizes := counter_incr (size_range sz) (file_sizes c) \<rparr>)"

definition add_discovered_url :: "url \<Rightarrow> bool \<Rightarrow> collector \<Rightarrow> collector" where
  "add_discovered_url u is_within c =
     (let indicator = (if is_within then ''OK'' else ''N_OK'');
          c1 = c \<lparr> discovered_urls := discovered_urls c @ [(u, indicator)],
                   unique_urls_extracted := insert u (unique_urls_extracted c) \<rparr>
      in if is_within
         then c1 \<lparr> unique_urls_within_site := insert u (unique_urls_within_site c1) \<rparr>
         else c1 \<lparr> unique_urls_outside_site := insert u (unique_urls_outside_site c1) \<rparr>)"

definition is_visited :: "url \<Rightarrow> collector \<Rightarrow> bool" where
  "is_visited u c = (u \<in> visited_urls c)"

text \<open>The dictionary that \<^verbatim>\<open>get_statistics\<close> returns, one field a key.\<close>

record statistics =
  st_fetch_attempts :: nat
  st_fetches_succeeded :: nat
  st_fetches_failed :: nat
  st_total_urls_extracted :: nat
  st_unique_urls_extracted :: nat
  st_unique_urls_within_site :: nat
  st_unique_urls_outside_site :: nat
  st_status_codes :: "int counter"
  st_file_sizes :: "string counter"
  st_content_types :: "string counter"

text \<open>
  \<^verbatim>\<open>get_statistics\<close> is a method of a mutable object: it is given the collector and
  returns the dictionary together with the collector it leaves behind.
\<close>

definition get_statistics :: "collector \<Rightarrow> statistics \<times> collector" where
  "get_statistics c =
     (let fetches_succeeded =
            length (filter (\<lambda>(_, code). 200 \<le> code \<and> code < 300) (fetch_attempts c));
          fetches_failed = length (fetch_attempts c) - fetches_succeeded
      in (\<lparr> st_fetch_attempts = length (fetch_attempts c),
             st_fetches_succeeded = fetches_succeeded,
             st_fetches_failed = fetches_failed,
             st_total_urls_extracted = length (discovered_urls c),
             st_unique_urls_extracted = card (unique_urls_extracted c),
             st_unique_urls_within_site = card (unique_urls_within_site c),
             st_unique_urls_outside_site = card (unique_urls_outside_site c),
             st_status_codes = status_codes c,
             st_file_sizes = file_sizes c,
             st_content_types = content_types c \<rparr>, c))"

text \<open>A call of one of the collector's methods, and a sequence of calls made on a fresh
  collector.\<close>

datatype recorder_call =
    AddFetchAttempt url int
  | AddSuccessfulVisit url int nat string
  | AddDiscoveredUrl url bool
  | IsVisited url
  | GetStatistics

fun recorder_step :: "collector \<Rightarrow> recorder_call \<Rightarrow> collector" where
  "recorder_step c (AddFetchAttempt u code) = add_fetch_attempt u code c"
| "recorder_step c (AddSuccessfulVisit u sz n ct) = add_successful_visit u sz n ct c"
| "recorder_step c (AddDiscoveredUrl u w) = add_discovered_url u w c"
| "recorder_step c (IsVisited u) = c"
| "recorder_step c GetStatistics = snd (get_statistics c)"

definition recorder_run :: "recorder_call list \<Rightarrow> collector" where
  "recorder_run calls = foldl recorder_step new_collector calls"

definition visits_in_range :: "collector \<Rightarrow> string \<Rightarrow> nat" where
  "visits_in_range c k =
     length (filter (\<lambda>(_, sz, _, _). size_range sz = k) (successful_visits c))"



section \<open>The libraries and the network\<close>

text \<open>
  The crawler calls \<^verbatim>\<open>urllib.parse\<close>, \<^verbatim>\<open>urllib.robotparser\<close>, \<^verbatim>\<open>requests\<close>
  and \<^verbatim>\<open>BeautifulSoup\<close>. What they answer is a parameter of the model, so that every
  theorem about a crawl holds for any site and any network behaviour.
\<close>

text \<open>What \<^verbatim>\<open>requests.get\<close> does: a response with its status code, body and
  \<^verbatim>\<open>Content-Type\<close> header (if any), or one of the exceptions that \<^verbatim>\<open>fetch_page\<close>
  tells apart.\<close>

datatype transport =
    Response int string "string option"
  | Timeout
  | ConnectionError
  | OtherError

text \<open>What \<^verbatim>\<open>RobotFileParser.read\<close> meets when it opens \<^verbatim>\<open>/robots.txt\<close>: a body, parsed
  into the answer it gives this crawler's user agent for each URL; an HTTP error status;
  or any other exception (no route to the host, a body that is not UTF-8), which
  \<^verbatim>\<open>read\<close> lets through.\<close>

datatype robots_read =
    RobotsBody "url \<Rightarrow> bool"
  | RobotsHTTPError int
  | RobotsRaised

record env =
  netloc :: "url \<Rightarrow> string"
  urldefrag :: "url \<Rightarrow> url"
  urljoin :: "url \<Rightarrow> string \<Rightarrow> url option"
  soup_hrefs :: "string \<Rightarrow> string list option"
  robots_txt :: robots_read
  requests_get :: "int \<Rightarrow> url \<Rightarrow> transport"

text \<open>
  \<^item> \<open>netloc env u\<close> is \<^verbatim>\<open>urlparse(u).netloc\<close>;
  \<^item> \<open>urldefrag env u\<close> is the first component of \<^verbatim>\<open>urldefrag(u)\<close>;
  \<^item> \<open>urljoin env base href\<close> is \<^verbatim>\<open>urljoin(base, href)\<close>, \<open>None\<close> when it raises;
  \<^item> \<open>soup_hrefs env body\<close> lists the \<^verbatim>\<open>href\<close> of every \<^verbatim>\<open>a\<close> and \<^verbatim>\<open>link\<close> tag that
    BeautifulSoup finds in the body, \<open>None\<close> when the parser raises;
  \<^item> \<open>requests_get env n u\<close> is what the network does for the \<open>n\<close>-th page the crawl
    counts (\<^verbatim>\<open>current_count\<close>), asked for \<open>u\<close>.
\<close>

subsection \<open>The standard library's robots.txt parser\<close>

text \<open>
  The fields of \<^verbatim>\<open>urllib.robotparser.RobotFileParser\<close> that \<^verbatim>\<open>can_fetch\<close> reads.
  \<open>last_checked\<close> holds whether the time stamp is set (it starts at 0, and \<^verbatim>\<open>parse\<close>
  stores the clock there); \<open>allowance\<close> stands for the parsed entries, as the answer they
  give the crawler's user agent.
\<close>

record robot_parser =
  disallow_all :: bool
  allow_all :: bool
  last_checked :: bool
  allowance :: "url \<Rightarrow> bool"

definition new_robot_parser :: robot_parser where
  "new_robot_parser =
     \<lparr> disallow_all = False, allow_all = False, last_checked = False,
       allowance = (\<lambda>_. True) \<rparr>"

text \<open>\<^verbatim>\<open>read\<close>: \<open>None\<close> when the exception leaves the method.\<close>

fun robot_read :: "robots_read \<Rightarrow> robot_parser \<Rightarrow> robot_parser option" where
  "robot_read (RobotsHTTPError code) rp =
     Some (if code = 401 \<or> code = 403 then rp \<lparr> disallow_all := True \<rparr>
           else if 400 \<le> code \<and> code < 500 then rp \<lparr> allow_all := True \<rparr>
           else rp)"
| "robot_read (RobotsBody rules) rp = Some (rp \<lparr> last_checked := True, allowance := rules \<rparr>)"
| "robot_read RobotsRaised rp = None"

definition can_fetch :: "robot_parser \<Rightarrow> url \<Rightarrow> bool" where
  "can_fetch rp u =
     (if disallow_all rp then False
      else if allow_all rp then True
      else if \<not> last_checked rp then False
      else allowance rp u)"


section \<open>WebCrawler\<close>

record config =
  seed_url :: url
  max_pages :: int
  max_depth :: int
  num_threads :: nat

text \<open>The fields of a \<^verbatim>\<open>WebCrawler\<close> that the worker threads share. The queue holds
  \<open>(url, depth)\<close> pairs, oldest first.\<close>

record crawler =
  domain :: string
  url_queue :: "(url \<times> int) list"
  stats :: collector
  stop_crawling :: bool
  pages_fetched :: int
  robot_parser :: robot_parser

text \<open>\<^verbatim>\<open>WebCrawler.__init__\<close>: an exception of \<^verbatim>\<open>read\<close> is caught and printed, and the
  parser stays as it was made.\<close>

definition new_crawler :: "env \<Rightarrow> config \<Rightarrow> crawler" where
  "new_crawler e cfg =
     \<lparr> domain = netloc e (seed_url cfg),
       url_queue = [(seed_url cfg, 0)],
       stats = new_collector,
       stop_crawling = False,
       pages_fetched = 0,
       robot_parser = (case robot_read (robots_txt e) new_robot_parser of
                         Some rp \<Rightarrow> rp
                       | None \<Rightarrow> new_robot_parser) \<rparr>"

definition allowed_content_types :: "string list" where
  "allowed_content_types =
     [''text/html'', ''application/pdf'', ''application/msword'',
      ''application/vnd.openxmlformats-officedocument.wordprocessingml.document'',
      ''image/gif'', ''image/jpeg'', ''image/jpg'', ''image/png'', ''image/webp'',
      ''image/svg+xml'']"

definition excluded_suffixes :: "string list" where
  "excluded_suffixes =
     [''css'', ''js'', ''json'', ''xml'', ''bmp'', ''mp3'', ''mp4'', ''wav'', ''avi'', ''mov'',
      ''mpeg'', ''ram'', ''m4v'', ''wmv'', ''rm'', ''smil'', ''swf'', ''wma'', ''zip'', ''rar'',
      ''gz'', ''tar'', ''7z'', ''exe'', ''bin'', ''dmg'', ''iso'']"

text \<open>
  \<^verbatim>\<open>self.excluded_extensions.match(url)\<close>, for the pattern \<^verbatim>\<open>.*\.(css|js|...)$\<close> with
  \<^verbatim>\<open>re.IGNORECASE\<close>: the URL ends with a dot and one of the suffixes, in any case;
  \<^verbatim>\<open>$\<close> also matches before a final newline, and \<^verbatim>\<open>.\<close> matches no newline.
\<close>

definition excluded_extensions :: "url \<Rightarrow> bool" where
  "excluded_extensions u =
     (let body = (if u \<noteq> [] \<and> last u = CHR 0x0A then butlast u else u) in
      CHR 0x0A \<notin> set body
      \<and> list_ex (\<lambda>suffix. endswith (lower body) (CHR ''.'' # suffix)) excluded_suffixes)"

definition is_valid_url :: "env \<Rightarrow> crawler \<Rightarrow> url \<Rightarrow> bool" where
  "is_valid_url e c u0 =
     (let u = urldefrag e u0 in
      if is_visited u (stats c) then False
      else if excluded_extensions u then False
      else if \<not> can_fetch (robot_parser c) u then False
      else True)"

definition is_within_site :: "env \<Rightarrow> crawler \<Rightarrow> url \<Rightarrow> bool" where
  "is_within_site e c u =
     (netloc e u = domain c \<or> endswith (netloc e u) (CHR ''.'' # domain c))"

text \<open>\<^verbatim>\<open>fetch_page\<close> returns \<open>(status_code, content, content_type, size)\<close>; the second
  and third are \<^verbatim>\<open>None\<close> after an exception.\<close>

type_synonym fetched = "int \<times> string option \<times> string option \<times> int"

fun fetch_result :: "transport \<Rightarrow> fetched" where
  "fetch_result (Response status_code content header) =
     (status_code, Some content,
      Some (strip (split_first CHR '';'' (case header of None \<Rightarrow> [] | Some h \<Rightarrow> h))),
      int (length content))"
| "fetch_result Timeout = (408, None, None, 0)"
| "fetch_result ConnectionError = (503, None, None, 0)"
| "fetch_result OtherError = (500, None, None, 0)"

definition fetch_page :: "env \<Rightarrow> int \<Rightarrow> url \<Rightarrow> fetched" where
  "fetch_page e n u = fetch_result (requests_get e n u)"

text \<open>\<^verbatim>\<open>extract_links\<close>: the loop over the tags stops at the first exception and keeps
  the links it has.\<close>

fun join_links :: "env \<Rightarrow> url \<Rightarrow> string list \<Rightarrow> url list" where
  "join_links e base_url [] = []"
| "join_links e base_url (href # hrefs) =
     (case urljoin e base_url href of
        None \<Rightarrow> []
      | Some joined \<Rightarrow>
          (let absolute_url = urldefrag e joined in
           (if startswith absolute_url ''http'' then [absolute_url] else [])
           @ join_links e base_url hrefs))"

definition extract_links :: "env \<Rightarrow> string \<Rightarrow> url \<Rightarrow> url list" where
  "extract_links e html_content base_url =
     (case soup_hrefs e html_content of
        None \<Rightarrow> []
      | Some hrefs \<Rightarrow> join_links e base_url hrefs)"

definition should_process_content_type :: "string \<Rightarrow> bool" where
  "should_process_content_type content_type =
     list_ex (\<lambda>allowed. contains allowed (lower content_type)) allowed_content_types"


subsection \<open>One worker thread\<close>

text \<open>The page a worker is handling while it walks over its outlinks.\<close>

record page =
  pg_url :: url
  pg_depth :: int
  pg_size :: int
  pg_content_type :: string
  pg_outlinks :: "url list"

text \<open>
  Where a worker stands in \<^verbatim>\<open>crawl_worker\<close>, with its local variables. A thread can be
  interrupted between any two accesses to the shared fields, so each access is a
  position of its own:
  \<^item> \<open>LoopTop n\<close>: the test of \<^verbatim>\<open>while not self.stop_crawling\<close>, with
    \<^verbatim>\<open>empty_queue_count = n\<close>;
  \<^item> \<open>CheckBudget n\<close>: the first block under \<^verbatim>\<open>fetch_lock\<close>;
  \<^item> \<open>GetUrl n\<close>: \<^verbatim>\<open>url_queue.get(timeout=2)\<close>;
  \<^item> \<open>QueueEmpty n\<close>: in the \<^verbatim>\<open>except Empty\<close> handler, the count already raised to
    \<open>n\<close>;
  \<^item> \<open>CheckDepth\<close>, \<open>CheckScope\<close>, \<open>CheckValid\<close>: the three tests that discard an
    entry;
  \<^item> \<open>CountFetch\<close>: the second block under \<^verbatim>\<open>fetch_lock\<close>;
  \<^item> \<open>FetchPage u d n\<close>: the sleep and \<^verbatim>\<open>fetch_page(url)\<close>, with \<^verbatim>\<open>current_count = n\<close>;
  \<^item> \<open>RecordFetch u d r\<close>: \<^verbatim>\<open>add_fetch_attempt\<close>, then the tests on the result \<open>r\<close>;
  \<^item> \<open>Discover pg links\<close>: the head of the \<^verbatim>\<open>for link in outlinks\<close> loop, \<open>links\<close>
    still to come; its body records the first of them;
  \<^item> \<open>CheckLink pg links\<close>: the test \<^verbatim>\<open>is_within and not is_visited(link)\<close> for the
    first of \<open>links\<close>;
  \<^item> \<open>PutLink pg links\<close>: \<^verbatim>\<open>url_queue.put((link, depth + 1))\<close>;
  \<^item> \<open>RecordVisit\<close>: \<^verbatim>\<open>add_successful_visit\<close>;
  \<^item> \<open>Finished\<close>: the loop was left; \<open>Crashed\<close>: an exception ended the thread.

  The calls of \<^verbatim>\<open>task_done\<close> only serve \<^verbatim>\<open>Queue.join\<close>, which the crawler never calls;
  they, the printing and the politeness sleep change no field read here.
\<close>

datatype worker =
    LoopTop nat
  | CheckBudget nat
  | GetUrl nat
  | QueueEmpty nat
  | CheckDepth url int
  | CheckScope url int
  | CheckValid url int
  | CountFetch url int
  | FetchPage url int int
  | RecordFetch url int fetched
  | Discover page "url list"
  | CheckLink page "url list"
  | PutLink page "url list"
  | RecordVisit url int nat string
  | Finished
  | Crashed

definition max_empty_attempts :: nat where
  "max_empty_attempts = 5"

text \<open>What follows \<^verbatim>\<open>add_fetch_attempt\<close>: the tests of lines 341 to 347. A body without
  a content type does not come out of \<^verbatim>\<open>fetch_page\<close>; \<^verbatim>\<open>None.lower()\<close> would raise.\<close>

fun after_fetch :: "env \<Rightarrow> url \<Rightarrow> int \<Rightarrow> fetched \<Rightarrow> worker" where
  "after_fetch e u depth (status_code, content, content_type, sz) =
     (if 200 \<le> status_code \<and> status_code < 300 \<and> content \<noteq> None \<and> content \<noteq> Some []
      then (case content_type of
              None \<Rightarrow> Crashed
            | Some ct \<Rightarrow>
                if should_process_content_type ct
                then (if contains ''text/html'' ct
                      then (let outlinks = extract_links e (the content) u in
                            Discover \<lparr> pg_url = u, pg_depth = depth, pg_size = sz,
                                       pg_content_type = ct, pg_outlinks = outlinks \<rparr>
                                     outlinks)
                      else RecordVisit u sz 0 ct)
                else LoopTop 0)
      else LoopTop 0)"

text \<open>One atomic step of a worker: the shared fields before, the worker's position; the
  shared fields after, its next position.\<close>

fun worker_step :: "env \<Rightarrow> config \<Rightarrow> crawler \<Rightarrow> worker \<Rightarrow> crawler \<times> worker" where
  "worker_step e cfg c (LoopTop n) =
     (if stop_crawling c then (c, Finished) else (c, CheckBudget n))"
| "worker_step e cfg c (CheckBudget n) =
     (if pages_fetched c \<ge> max_pages cfg
      then (c \<lparr> stop_crawling := True \<rparr>, Finished)
      else (c, GetUrl n))"
| "worker_step e cfg c (GetUrl n) =
     (case url_queue c of
        [] \<Rightarrow> (c, QueueEmpty (n + 1))
      | (u, depth) # rest \<Rightarrow> (c \<lparr> url_queue := rest \<rparr>, CheckDepth u depth))"
| "worker_step e cfg c (QueueEmpty n) =
     (if n \<ge> max_empty_attempts \<and> pages_fetched c > 0
      then (c, Finished)
      else (c, LoopTop n))"
| "worker_step e cfg c (CheckDepth u depth) =
     (if depth > max_depth cfg then (c, LoopTop 0) else (c, CheckScope u depth))"
| "worker_step e cfg c (CheckScope u depth) =
     (if \<not> is_within_site e c u then (c, LoopTop 0) else (c, CheckValid u depth))"
| "worker_step e cfg c (CheckValid u depth) =
     (if \<not> is_valid_url e c u then (c, LoopTop 0) else (c, CountFetch u depth))"
| "worker_step e cfg c (CountFetch u depth) =
     (if pages_fetched c \<ge> max_pages cfg
      then (c \<lparr> stop_crawling := True \<rparr>, Finished)
      else (c \<lparr> pages_fetched := pages_fetched c + 1 \<rparr>,
            FetchPage u depth (pages_fetched c + 1)))"
| "worker_step e cfg c (FetchPage u depth current_count) =
     (c, RecordFetch u depth (fetch_page e current_count u))"
| "worker_step e cfg c (RecordFetch u depth r) =
     (c \<lparr> stats := add_fetch_attempt u (fst r) (stats c) \<rparr>, after_fetch e u depth r)"
| "worker_step e cfg c (Discover pg []) =
     (c, RecordVisit (pg_url pg) (pg_size pg) (length (pg_outlinks pg)) (pg_content_type pg))"
| "worker_step e cfg c (Discover pg (link # links)) =
     (c \<lparr> stats := add_discovered_url link (is_within_site e c link) (stats c) \<rparr>,
      CheckLink pg (link # links))"
| "worker_step e cfg c (CheckLink pg []) = (c, Discover pg [])"
| "worker_step e cfg c (CheckLink pg (link # links)) =
     (if is_within_site e c link \<and> \<not> is_visited link (stats c)
      then (c, PutLink pg (link # links))
      else (c, Discover pg links))"
| "worker_step e cfg c (PutLink pg []) = (c, Discover pg [])"
| "worker_step e cfg c (PutLink pg (link # links)) =
     (c \<lparr> url_queue := url_queue c @ [(link, pg_depth pg + 1)] \<rparr>, Discover pg links)"
| "worker_step e cfg c (RecordVisit u sz outlinks content_type) =
     (c \<lparr> stats := add_successful_visit u sz outlinks content_type (stats c) \<rparr>, LoopTop 0)"
| "worker_step e cfg c Finished = (c, Finished)"
| "worker_step e cfg c Crashed = (c, Crashed)"


subsection \<open>The pool of threads\<close>

text \<open>
  \<^verbatim>\<open>start_crawling\<close> starts \<open>num_threads\<close> workers on one crawler. A run is a schedule:
  the list of the threads that take the successive atomic steps. A thread that has not
  been started yet is one the schedule has not picked yet.
\<close>

record system =
  shared :: crawler
  threads :: "worker list"

definition start :: "env \<Rightarrow> config \<Rightarrow> system" where
  "start e cfg =
     \<lparr> shared = new_crawler e cfg, threads = replicate (num_threads cfg) (LoopTop 0) \<rparr>"

definition thread_step :: "env \<Rightarrow> config \<Rightarrow> system \<Rightarrow> nat \<Rightarrow> system" where
  "thread_step e cfg s i =
     (if i < length (threads s)
      then (case worker_step e cfg (shared s) (threads s ! i) of
              (c, w) \<Rightarrow> \<lparr> shared = c, threads = (threads s)[i := w] \<rparr>)
      else s)"

definition run :: "env \<Rightarrow> config \<Rightarrow> nat list \<Rightarrow> system" where
  "run e cfg schedule = foldl (thread_step e cfg) (start e cfg) schedule"

text \<open>A worker between the count of a fetch and the record of it.\<close>

fun in_flight :: "worker \<Rightarrow> bool" where
  "in_flight (FetchPage u depth n) = True"
| "in_flight (RecordFetch u depth r) = True"
| "in_flight w = False"

text \<open>The depth of the queue entry that a worker is fetching or has fetched, if it is
  at that point.\<close>

fun fetching_depth :: "worker \<Rightarrow> int option" where
  "fetching_depth (FetchPage u depth n) = Some depth"
| "fetching_depth (RecordFetch u depth r) = Some depth"
| "fetching_depth w = None"


section \<open>Concrete sites\<close>

text \<open>
  For runs on concrete inputs the library functions are given by what \<^verbatim>\<open>urllib.parse\<close>
  computes. \<open>urlparse_netloc\<close> follows \<^verbatim>\<open>urlsplit\<close>: leading control characters and
  spaces are dropped, tabs and line ends removed, a scheme (a letter, then letters,
  digits, \<^verbatim>\<open>+\<close>, \<^verbatim>\<open>-\<close> or \<^verbatim>\<open>.\<close>, up to the first colon) is split off, and after
  \<^verbatim>\<open>//\<close> the network location runs to the first of \<^verbatim>\<open>/\<close>, \<^verbatim>\<open>?\<close> and \<^verbatim>\<open>#\<close>. (For a
  network location with a lone square bracket \<^verbatim>\<open>urlsplit\<close> raises; the sites below have
  none.)
\<close>

definition ascii_alpha :: "char \<Rightarrow> bool" where
  "ascii_alpha c =
     (let n = (of_char c :: nat) in (65 \<le> n \<and> n \<le> 90) \<or> (97 \<le> n \<and> n \<le> 122))"

definition scheme_char :: "char \<Rightarrow> bool" where
  "scheme_char c =
     (let n = (of_char c :: nat) in
      ascii_alpha c \<or> (48 \<le> n \<and> n \<le> 57) \<or> c = CHR ''+'' \<or> c = CHR ''-'' \<or> c = CHR ''.'')"

definition urlparse_netloc :: "url \<Rightarrow> string" where
  "urlparse_netloc u0 =
     (let u1 = dropWhile (\<lambda>c. (of_char c :: nat) \<le> 32) u0;
          u2 = filter (\<lambda>c. c \<noteq> CHR 0x09 \<and> c \<noteq> CHR 0x0D \<and> c \<noteq> CHR 0x0A) u1;
          scheme = takeWhile (\<lambda>c. c \<noteq> CHR '':'') u2;
          u3 = (if CHR '':'' \<in> set u2 \<and> scheme \<noteq> [] \<and> ascii_alpha (hd u2)
                   \<and> list_all scheme_char scheme
                then drop (length scheme + 1) u2 else u2)
      in if take 2 u3 = ''//''
         then takeWhile (\<lambda>c. c \<noteq> CHR ''/'' \<and> c \<noteq> CHR ''?'' \<and> c \<noteq> CHR ''#'') (drop 2 u3)
         else [])"

text \<open>\<^verbatim>\<open>urldefrag\<close> returns a URL without \<^verbatim>\<open>#\<close> as it is; from another it cuts the
  fragment, which starts at the first \<^verbatim>\<open>#\<close>.\<close>

definition strip_fragment :: "url \<Rightarrow> url" where
  "strip_fragment u = takeWhile (\<lambda>c. c \<noteq> CHR ''#'') u"

text \<open>
  The host named by a network location, as the scope rule of the specification speaks
  of it: the text after the user information (up to the last \<^verbatim>\<open>@\<close>) and before the
  port (from the first colon), as the \<^verbatim>\<open>hostname\<close> attribute of a parsed URL gives it
  for a host without brackets.
\<close>

definition host_of_netloc :: "string \<Rightarrow> string" where
  "host_of_netloc nl =
     (let hostinfo = rev (takeWhile (\<lambda>c. c \<noteq> CHR ''@'') (rev nl)) in
      lower (takeWhile (\<lambda>c. c \<noteq> CHR '':'') hostinfo))"

text \<open>
  A site of two pages. The front page is HTML and carries the same link twice; the
  linked page answers 404. The site has no \<^verbatim>\<open>robots.txt\<close> (status 404). The links are
  absolute, and \<^verbatim>\<open>urljoin\<close> returns an absolute URL of the same scheme as it is.
\<close>

definition front_page :: url where
  "front_page = ''http://example.com/''"

definition missing_page :: url where
  "missing_page = ''http://example.com/a''"

definition small_site :: env where
  "small_site =
     \<lparr> netloc = urlparse_netloc,
       urldefrag = strip_fragment,
       urljoin = (\<lambda>base_url href. Some href),
       soup_hrefs = (\<lambda>body. Some [missing_page, missing_page]),
       robots_txt = RobotsHTTPError 404,
       requests_get = (\<lambda>n u. if u = front_page
                              then Response 200 ''<html>'' (Some ''text/html; charset=utf-8'')
                              else Response 404 ''gone'' None) \<rparr>"

definition one_thread :: "url \<Rightarrow> config" where
  "one_thread seed = \<lparr> seed_url = seed, max_pages = 10, max_depth = 16, num_threads = 1 \<rparr>"

text \<open>The same site when \<^verbatim>\<open>robots.txt\<close> cannot be fetched at all: \<^verbatim>\<open>urlopen\<close> raises
  \<^verbatim>\<open>URLError\<close>.\<close>

definition small_site_no_robots :: env where
  "small_site_no_robots = small_site \<lparr> robots_txt := RobotsRaised \<rparr>"


text \<open>A crawl that may fetch no page at all.\<close>

definition no_budget :: config where
  "no_budget = (one_thread front_page) \<lparr> max_pages := 0 \<rparr>"


section \<open>Invariants of the collector\<close>

definition histograms_agree :: "collector \<Rightarrow> bool" where
  "histograms_agree c =
     (counter_total (status_codes c) = length (fetch_attempts c)
      \<and> counter_total (file_sizes c) = length (successful_visits c)
      \<and> map fst (file_sizes c) = size_ranges
      \<and> (\<forall>k. counter_get (file_sizes c) k = visits_in_range c k))"

text \<open>The calls that only read the collector.\<close>

fun read_only :: "recorder_call \<Rightarrow> bool" where
  "read_only (IsVisited u) = True"
| "read_only GetStatistics = True"
| "read_only call = False"


section \<open>Invariants of a crawl\<close>

text \<open>The number of workers in flight.\<close>

definition flying :: "worker list \<Rightarrow> int" where
  "flying ws = (\<Sum>w\<leftarrow>ws. if in_flight w then 1 else 0)"

text \<open>A worker past the depth test holds an entry that passed it.\<close>

fun depth_checked :: "config \<Rightarrow> worker \<Rightarrow> bool" where
  "depth_checked cfg (CheckScope u depth) = (depth \<le> max_depth cfg)"
| "depth_checked cfg (CheckValid u depth) = (depth \<le> max_depth cfg)"
| "depth_checked cfg (CountFetch u depth) = (depth \<le> max_depth cfg)"
| "depth_checked cfg (FetchPage u depth n) = (depth \<le> max_depth cfg)"
| "depth_checked cfg (RecordFetch u depth r) = (depth \<le> max_depth cfg)"
| "depth_checked cfg w = True"

definition budget_inv :: "config \<Rightarrow> system \<Rightarrow> bool" where
  "budget_inv cfg s =
     (pages_fetched (shared s)
        = int (length (fetch_attempts (stats (shared s)))) + flying (threads s)
      \<and> pages_fetched (shared s) \<le> max 0 (max_pages cfg)
      \<and> list_all (depth_checked cfg) (threads s))"


text \<open>What the collector's sets and list of discovered URLs satisfy during a crawl: the
  two scope sets split the set of extracted URLs by \<open>is_within_site\<close>, and each record
  carries the indicator of its URL.\<close>

definition discovery_inv :: "env \<Rightarrow> crawler \<Rightarrow> bool" where
  "discovery_inv e c =
     (finite (unique_urls_extracted (stats c))
      \<and> unique_urls_within_site (stats c)
          = {u \<in> unique_urls_extracted (stats c). is_within_site e c u}
      \<and> unique_urls_outside_site (stats c)
          = {u \<in> unique_urls_extracted (stats c). \<not> is_within_site e c u}
      \<and> set (map fst (discovered_urls (stats c))) = unique_urls_extracted (stats c)
      \<and> list_all (\<lambda>(u, indicator). indicator = (if is_within_site e c u then ''OK'' else ''N_OK''))
           (discovered_urls (stats c)))"

text \<open>The collector after a schedule.\<close>

definition final_stats :: "env \<Rightarrow> config \<Rightarrow> nat list \<Rightarrow> collector" where
  "final_stats e cfg schedule = stats (shared (run e cfg schedule))"


text \<open>A worker that has not come to count a fetch and is still in its loop.\<close>

fun before_count :: "worker \<Rightarrow> bool" where
  "before_count (LoopTop n) = True"
| "before_count (CheckBudget n) = True"
| "before_count (GetUrl n) = True"
| "before_count (QueueEmpty n) = True"
| "before_count (CheckDepth u depth) = True"
| "before_count (CheckScope u depth) = True"
| "before_count (CheckValid u depth) = True"
| "before_count w = False"

text \<open>A crawl in which nothing has been fetched and nothing can be: the robots parser
  is as it was made, and every worker is before the count.\<close>

definition blocked :: "system \<Rightarrow> bool" where
  "blocked s =
     (robot_parser (shared s) = new_robot_parser
      \<and> pages_fetched (shared s) = 0
      \<and> \<not> stop_crawling (shared s)
      \<and> fetch_attempts (stats (shared s)) = []
      \<and> list_all before_count (threads s))"


section \<open>Histogram consistency\<close>

lemma counter_total_incr: "counter_total (counter_incr k d) = counter_total d + 1"
  by (induction d) (auto simp: counter_total_def)

lemma counter_get_incr:
  "counter_get (counter_incr k d) k' = counter_get d k' + (if k' = k then 1 else 0)"
  by (induction d) (auto simp: counter_get_def)

lemma size_range_cases:
  "size_range sz =
     (if sz < 1024 then ''< 1KB''
      else if sz < 10240 then ''1KB ~ <10KB''
      else if sz < 102400 then ''10KB ~ <100KB''
      else if sz < 1048576 then ''100KB ~ <1MB''
      else ''>= 1MB'')"
  by (simp add: size_range_def Let_def)

lemma size_range_in_ranges: "size_range sz \<in> set size_ranges"
  by (simp add: size_range_cases size_ranges_def)

lemma histograms_agree_new: "histograms_agree new_collector"
  by (simp add: histograms_agree_def new_collector_def counter_total_def counter_get_def
      visits_in_range_def size_ranges_def)

lemma map_fst_counter_incr_mem:
  "k \<in> set (map fst d) \<Longrightarrow> map fst (counter_incr k d) = map fst d"
  by (induction d) force+

lemma histograms_agree_step:
  assumes "histograms_agree c"
  shows "histograms_agree (recorder_step c call)"
proof (cases call)
  case (AddFetchAttempt u code)
  with assms show ?thesis
    by (simp add: histograms_agree_def add_fetch_attempt_def counter_total_incr
        visits_in_range_def)
next
  case (AddSuccessfulVisit u sz n ct)
  have mem: "size_range sz \<in> set (map fst (file_sizes c))"
    using assms size_range_in_ranges by (simp add: histograms_agree_def)
  with assms show ?thesis
    unfolding AddSuccessfulVisit
    by (simp add: histograms_agree_def add_successful_visit_def Let_def counter_total_incr
        counter_get_incr visits_in_range_def map_fst_counter_incr_mem)
next
  case (AddDiscoveredUrl u w)
  with assms show ?thesis
    by (simp add: histograms_agree_def add_discovered_url_def Let_def visits_in_range_def)
next
  case (IsVisited u)
  with assms show ?thesis by simp
next
  case GetStatistics
  with assms show ?thesis by (simp add: get_statistics_def Let_def)
qed

lemma histograms_agree_foldl:
  "histograms_agree c \<Longrightarrow> histograms_agree (foldl recorder_step c calls)"
  by (induction calls arbitrary: c) (simp_all add: histograms_agree_step)

text \<open>
  C7. After any sequence of calls of the collector's methods on a fresh collector, the
  counts of the status-code histogram add up to the number of fetch records, the counts
  of the size histogram add up to the number of visit records, the size histogram has
  exactly the five ranges as keys and each of its counts is the number of visit records
  whose size falls in that range. Every size falls in one range (\<open>size_range\<close> is a
  function into the five distinct keys); 1024 bytes fall in \<^verbatim>\<open>1KB ~ <10KB\<close> and 1048576
  bytes in \<^verbatim>\<open>>= 1MB\<close>.
\<close>

theorem histogram_consistency:
  "counter_total (status_codes (recorder_run calls)) = length (fetch_attempts (recorder_run calls))
   \<and> counter_total (file_sizes (recorder_run calls))
       = length (successful_visits (recorder_run calls))
   \<and> map fst (file_sizes (recorder_run calls)) = size_ranges
   \<and> counter_get (file_sizes (recorder_run calls)) k = visits_in_range (recorder_run calls) k
   \<and> size_range sz \<in> set size_ranges \<and> distinct size_ranges
   \<and> size_range 1024 = ''1KB ~ <10KB'' \<and> size_range 1048576 = ''>= 1MB''"
proof -
  have "histograms_agree (recorder_run calls)"
    unfolding recorder_run_def by (rule histograms_agree_foldl [OF histograms_agree_new])
  moreover have "distinct size_ranges"
    by (simp add: size_ranges_def)
  moreover have "size_range 1024 = ''1KB ~ <10KB''" "size_range 1048576 = ''>= 1MB''"
    by (simp_all add: size_range_cases)
  ultimately show ?thesis
    using size_range_in_ranges [of sz] by (simp add: histograms_agree_def)
qed


section \<open>The snapshot\<close>

lemma read_only_step: "read_only call \<Longrightarrow> recorder_step c call = c"
  by (cases call) (simp_all add: get_statistics_def Let_def)

lemma read_only_foldl: "list_all read_only calls \<Longrightarrow> foldl recorder_step c calls = c"
  by (induction calls arbitrary: c) (simp_all add: read_only_step)

text \<open>
  C9. \<^verbatim>\<open>get_statistics\<close> leaves the collector as it found it, so a second call, with
  nothing in between but calls that only read (\<^verbatim>\<open>is_visited\<close>, \<^verbatim>\<open>get_statistics\<close>),
  returns the same dictionary as the first.
\<close>

theorem snapshot_idempotent:
  assumes "list_all read_only between"
  shows "snd (get_statistics c) = c
         \<and> fst (get_statistics (foldl recorder_step (snd (get_statistics c)) between))
             = fst (get_statistics c)"
proof -
  have same: "snd (get_statistics c) = c"
    by (simp add: get_statistics_def Let_def)
  have "foldl recorder_step c between = c"
    using assms by (rule read_only_foldl)
  with same show ?thesis by simp
qed

theorem snapshot_idempotent_witness:
  "list_all read_only [IsVisited ''http://example.com/'', GetStatistics]
   \<and> fst (get_statistics (foldl recorder_step
            (snd (get_statistics (recorder_run [AddFetchAttempt ''http://example.com/'' 200])))
            [IsVisited ''http://example.com/'', GetStatistics]))
       = fst (get_statistics (recorder_run [AddFetchAttempt ''http://example.com/'' 200]))"
  using snapshot_idempotent [of "[IsVisited ''http://example.com/'', GetStatistics]"
      "recorder_run [AddFetchAttempt ''http://example.com/'' 200]"]
  by simp


section \<open>Runs and their invariants\<close>

lemma run_snoc: "run e cfg (schedule @ [i]) = thread_step e cfg (run e cfg schedule) i"
  by (simp add: run_def)

lemma run_append:
  "run e cfg (schedule @ later) = foldl (thread_step e cfg) (run e cfg schedule) later"
  by (simp add: run_def)

lemma run_invariant:
  assumes init: "P (start e cfg)"
    and step: "\<And>s i. P s \<Longrightarrow> i < length (threads s) \<Longrightarrow> P (thread_step e cfg s i)"
  shows "P (run e cfg schedule)"
proof (induction schedule rule: rev_induct)
  case Nil
  show ?case using init by (simp add: run_def)
next
  case (snoc i schedule)
  show ?case
  proof (cases "i < length (threads (run e cfg schedule))")
    case True
    with snoc step show ?thesis by (simp add: run_snoc)
  next
    case False
    with snoc show ?thesis by (simp add: run_snoc thread_step_def)
  qed
qed

lemma flying_filter: "flying ws = int (length (filter in_flight ws))"
  by (induction ws) (simp_all add: flying_def)

lemma flying_update:
  "i < length ws \<Longrightarrow>
   flying (ws[i := w])
   = flying ws - (if in_flight (ws ! i) then 1 else 0) + (if in_flight w then 1 else 0)"
proof (induction ws arbitrary: i)
  case Nil
  then show ?case by simp
next
  case (Cons a ws)
  show ?case
  proof (cases i)
    case 0
    then show ?thesis by (simp add: flying_def)
  next
    case (Suc j)
    with Cons.prems have "j < length ws" by simp
    from Cons.IH [OF this] Suc show ?thesis by (simp add: flying_def)
  qed
qed

lemma after_fetch_not_in_flight: "\<not> in_flight (after_fetch e u depth r)"
  by (cases r) (auto simp: Let_def split: option.splits)

lemma worker_step_count:
  assumes "worker_step e cfg c w = (c', w')"
  shows "pages_fetched c' - int (length (fetch_attempts (stats c'))) - (if in_flight w' then 1 else 0)
       = pages_fetched c - int (length (fetch_attempts (stats c))) - (if in_flight w then 1 else 0)"
  using assms
  by (induction e cfg c w rule: worker_step.induct)
     (auto simp: add_fetch_attempt_def add_discovered_url_def add_successful_visit_def Let_def
        after_fetch_not_in_flight simp del: after_fetch.simps split: if_splits list.splits)


lemma after_fetch_depth_checked: "depth_checked cfg (after_fetch e u depth r)"
  by (cases r) (auto simp: Let_def split: option.splits)

lemma worker_step_bound:
  assumes "worker_step e cfg c w = (c', w')" and "pages_fetched c \<le> max 0 (max_pages cfg)"
  shows "pages_fetched c' \<le> max 0 (max_pages cfg)"
  using assms
  by (induction e cfg c w rule: worker_step.induct)
     (auto simp del: after_fetch.simps split: if_splits list.splits)

lemma worker_step_depth:
  assumes "worker_step e cfg c w = (c', w')" and "depth_checked cfg w"
  shows "depth_checked cfg w'"
  using assms
  by (induction e cfg c w rule: worker_step.induct)
     (auto simp: after_fetch_depth_checked simp del: after_fetch.simps
        split: if_splits list.splits)

lemma list_all_update:
  "list_all P xs \<Longrightarrow> P x \<Longrightarrow> list_all P (xs[i := x])"
  by (auto simp: list_all_iff dest: set_update_subset_insert [THEN subsetD])

lemma flying_replicate: "flying (replicate n (LoopTop k)) = 0"
  by (induction n) (simp_all add: flying_def)

lemma budget_inv_start: "budget_inv cfg (start e cfg)"
  by (simp add: budget_inv_def start_def new_crawler_def new_collector_def flying_replicate
      list_all_iff)

lemma budget_inv_step:
  assumes inv: "budget_inv cfg s" and i: "i < length (threads s)"
  shows "budget_inv cfg (thread_step e cfg s i)"
proof -
  obtain c' w' where step: "worker_step e cfg (shared s) (threads s ! i) = (c', w')"
    by (cases "worker_step e cfg (shared s) (threads s ! i)")
  have next_state: "thread_step e cfg s i = \<lparr> shared = c', threads = (threads s)[i := w'] \<rparr>"
    using i step by (simp add: thread_step_def)
  have checked: "depth_checked cfg (threads s ! i)"
    using inv i by (simp add: budget_inv_def list_all_length)
  have "pages_fetched c' = int (length (fetch_attempts (stats c'))) + flying ((threads s)[i := w'])"
    using worker_step_count [OF step] flying_update [OF i, of w'] inv
    by (simp add: budget_inv_def)
  moreover have "pages_fetched c' \<le> max 0 (max_pages cfg)"
    using worker_step_bound [OF step] inv by (simp add: budget_inv_def)
  moreover have "list_all (depth_checked cfg) ((threads s)[i := w'])"
    using worker_step_depth [OF step checked] inv by (simp add: budget_inv_def list_all_update)
  ultimately show ?thesis
    by (simp add: next_state budget_inv_def)
qed

lemma budget_inv_run: "budget_inv cfg (run e cfg schedule)"
  by (rule run_invariant) (simp_all add: budget_inv_start budget_inv_step)

lemma flying_nonneg: "0 \<le> flying ws"
  by (simp add: flying_filter)

lemma fetching_depth_checked:
  "depth_checked cfg w \<Longrightarrow> (case fetching_depth w of None \<Rightarrow> True | Some d \<Rightarrow> d \<le> max_depth cfg)"
  by (cases w) simp_all

text \<open>
  C2. In every run, whatever the number of workers and the order of their steps, the
  number of fetch records is at most \<open>max_pages\<close>, and every worker that is fetching a
  page or about to record the fetch holds a queue entry whose depth is at most
  \<open>max_depth\<close>.
\<close>

theorem budget_respected:
  assumes "0 \<le> max_pages cfg"
  shows "int (length (fetch_attempts (stats (shared (run e cfg schedule))))) \<le> max_pages cfg
         \<and> list_all (\<lambda>w. case fetching_depth w of None \<Rightarrow> True | Some d \<Rightarrow> d \<le> max_depth cfg)
              (threads (run e cfg schedule))"
proof -
  have inv: "budget_inv cfg (run e cfg schedule)"
    by (rule budget_inv_run)
  have "int (length (fetch_attempts (stats (shared (run e cfg schedule)))))
        \<le> pages_fetched (shared (run e cfg schedule))"
    using inv flying_nonneg [of "threads (run e cfg schedule)"] by (simp add: budget_inv_def)
  also have "\<dots> \<le> max_pages cfg"
    using inv assms by (simp add: budget_inv_def)
  finally have count: "int (length (fetch_attempts (stats (shared (run e cfg schedule)))))
        \<le> max_pages cfg" .
  have "list_all (depth_checked cfg) (threads (run e cfg schedule))"
    using inv by (simp add: budget_inv_def)
  then have "list_all (\<lambda>w. case fetching_depth w of None \<Rightarrow> True | Some d \<Rightarrow> d \<le> max_depth cfg)
              (threads (run e cfg schedule))"
    by (auto simp: list_all_iff intro: fetching_depth_checked)
  with count show ?thesis by simp
qed

theorem budget_respected_witness:
  "0 \<le> max_pages (one_thread front_page)
   \<and> int (length (fetch_attempts (stats (shared
        (run small_site (one_thread front_page) (replicate 35 0))))))
     \<le> max_pages (one_thread front_page)"
  using budget_respected [of "one_thread front_page" small_site "replicate 35 0"]
  by (simp add: one_thread_def)

text \<open>
  C6. \<^verbatim>\<open>fetch_page\<close> returns a status code whatever \<^verbatim>\<open>requests.get\<close> does: the
  response's own, 408 after a timeout, 503 after a connection error, 500 after any other
  exception. The worker goes from the fetch to \<^verbatim>\<open>add_fetch_attempt\<close>, which appends
  one record with that status; and in every run the pages counted are the fetch records
  plus the workers between the count and the record.
\<close>

theorem every_fetch_yields_status:
  "fst (fetch_page e n u)
     = (case requests_get e n u of
          Response status_code content header \<Rightarrow> status_code
        | Timeout \<Rightarrow> 408 | ConnectionError \<Rightarrow> 503 | OtherError \<Rightarrow> 500)
   \<and> worker_step e cfg c (FetchPage u depth n) = (c, RecordFetch u depth (fetch_page e n u))
   \<and> fetch_attempts (stats (fst (worker_step e cfg c (RecordFetch u depth r))))
       = fetch_attempts (stats c) @ [(u, fst r)]
   \<and> pages_fetched (shared (run e cfg schedule))
       = int (length (fetch_attempts (stats (shared (run e cfg schedule)))))
         + int (length (filter in_flight (threads (run e cfg schedule))))"
proof -
  have "fst (fetch_page e n u)
     = (case requests_get e n u of
          Response status_code content header \<Rightarrow> status_code
        | Timeout \<Rightarrow> 408 | ConnectionError \<Rightarrow> 503 | OtherError \<Rightarrow> 500)"
    by (cases "requests_get e n u") (simp_all add: fetch_page_def)
  moreover have "fetch_attempts (stats (fst (worker_step e cfg c (RecordFetch u depth r))))
       = fetch_attempts (stats c) @ [(u, fst r)]"
    by (simp add: add_fetch_attempt_def)
  moreover have "pages_fetched (shared (run e cfg schedule))
       = int (length (fetch_attempts (stats (shared (run e cfg schedule)))))
         + int (length (filter in_flight (threads (run e cfg schedule))))"
    using budget_inv_run [of cfg e schedule] by (simp add: budget_inv_def flying_filter)
  ultimately show ?thesis by simp
qed


section \<open>Discovered URLs\<close>

lemma worker_step_domain:
  "worker_step e cfg c w = (c', w') \<Longrightarrow> domain c' = domain c"
  by (induction e cfg c w rule: worker_step.induct)
     (auto simp del: after_fetch.simps split: if_splits list.splits)

lemma is_within_site_domain:
  "domain c' = domain c \<Longrightarrow> is_within_site e c' u = is_within_site e c u"
  by (simp add: is_within_site_def)

lemma worker_step_stats:
  assumes "worker_step e cfg c w = (c', w')"
  shows "stats c' = stats c
         \<or> (\<exists>u code. stats c' = add_fetch_attempt u code (stats c))
         \<or> (\<exists>u. stats c' = add_discovered_url u (is_within_site e c u) (stats c))
         \<or> (\<exists>u sz n ct. stats c' = add_successful_visit u sz n ct (stats c))"
  using assms
proof (induction e cfg c w rule: worker_step.induct)
  case (10 e cfg c u depth r)
  then have "stats c' = add_fetch_attempt u (fst r) (stats c)" by auto
  then show ?case by blast
next
  case (12 e cfg c pg link links)
  then have "stats c' = add_discovered_url link (is_within_site e c link) (stats c)" by auto
  then show ?case by blast
next
  case (17 e cfg c u sz outlinks content_type)
  then have "stats c' = add_successful_visit u sz outlinks content_type (stats c)" by auto
  then show ?case by blast
qed (auto split: if_splits list.splits)

lemma discovery_inv_cong:
  "domain c' = domain c \<Longrightarrow> stats c' = stats c \<Longrightarrow> discovery_inv e c \<Longrightarrow> discovery_inv e c'"
  by (simp add: discovery_inv_def is_within_site_def)

lemma discovery_inv_add:
  assumes "discovery_inv e c" and "domain c' = domain c"
    and "stats c' = add_discovered_url u (is_within_site e c u) (stats c)"
  shows "discovery_inv e c'"
  using assms
  by (auto simp: discovery_inv_def add_discovered_url_def Let_def is_within_site_def)

lemma discovery_inv_fetch:
  assumes "discovery_inv e c" and "domain c' = domain c"
    and "stats c' = add_fetch_attempt u code (stats c)"
  shows "discovery_inv e c'"
  using assms
  by (simp add: discovery_inv_def add_fetch_attempt_def is_within_site_def)

lemma discovery_inv_visit:
  assumes "discovery_inv e c" and "domain c' = domain c"
    and "stats c' = add_successful_visit u sz n ct (stats c)"
  shows "discovery_inv e c'"
  using assms
  by (simp add: discovery_inv_def add_successful_visit_def Let_def is_within_site_def)

lemma worker_step_discovery:
  assumes step: "worker_step e cfg c w = (c', w')" and inv: "discovery_inv e c"
  shows "discovery_inv e c'"
proof -
  have dom: "domain c' = domain c"
    using step by (rule worker_step_domain)
  from worker_step_stats [OF step] show ?thesis
    using inv dom
    by (blast intro: discovery_inv_cong discovery_inv_add discovery_inv_fetch
        discovery_inv_visit)
qed

lemma discovery_inv_start: "discovery_inv e (shared (start e cfg))"
  by (simp add: discovery_inv_def start_def new_crawler_def new_collector_def)

lemma discovery_inv_run: "discovery_inv e (shared (run e cfg schedule))"
proof (rule run_invariant [where P = "\<lambda>s. discovery_inv e (shared s)"])
  show "discovery_inv e (shared (start e cfg))" by (rule discovery_inv_start)
next
  fix s :: system and i
  assume inv: "discovery_inv e (shared s)" and i: "i < length (threads s)"
  obtain c' w' where step: "worker_step e cfg (shared s) (threads s ! i) = (c', w')"
    by (cases "worker_step e cfg (shared s) (threads s ! i)")
  with i have "shared (thread_step e cfg s i) = c'"
    by (simp add: thread_step_def)
  with worker_step_discovery [OF step inv] show "discovery_inv e (shared (thread_step e cfg s i))"
    by simp
qed

text \<open>
  C10. A worker records each link with the value of \<open>is_within_site\<close>, which depends on
  the link and the crawl's domain only. So in every run each discovery record carries
  the indicator of its URL, the within-site and outside-site sets are disjoint, their
  union is the set of extracted URLs, the snapshot's count of unique URLs is the sum of
  its two scope counts, and it is at most the total of URLs extracted.
\<close>

theorem discovery_partition:
  "unique_urls_within_site (final_stats e cfg schedule)
     \<inter> unique_urls_outside_site (final_stats e cfg schedule) = {}
   \<and> unique_urls_within_site (final_stats e cfg schedule)
     \<union> unique_urls_outside_site (final_stats e cfg schedule)
     = unique_urls_extracted (final_stats e cfg schedule)
   \<and> st_unique_urls_extracted (fst (get_statistics (final_stats e cfg schedule)))
     = st_unique_urls_within_site (fst (get_statistics (final_stats e cfg schedule)))
       + st_unique_urls_outside_site (fst (get_statistics (final_stats e cfg schedule)))
   \<and> st_unique_urls_extracted (fst (get_statistics (final_stats e cfg schedule)))
     \<le> st_total_urls_extracted (fst (get_statistics (final_stats e cfg schedule)))
   \<and> list_all (\<lambda>(u, indicator).
         indicator = (if is_within_site e (shared (run e cfg schedule)) u then ''OK'' else ''N_OK''))
       (discovered_urls (final_stats e cfg schedule))"
proof -
  define c where "c = shared (run e cfg schedule)"
  define st where "st = stats c"
  have inv: "discovery_inv e c"
    unfolding c_def by (rule discovery_inv_run)
  have fin: "finite (unique_urls_extracted st)"
    using inv by (simp add: discovery_inv_def st_def)
  have within: "unique_urls_within_site st = {u \<in> unique_urls_extracted st. is_within_site e c u}"
    and outside: "unique_urls_outside_site st = {u \<in> unique_urls_extracted st. \<not> is_within_site e c u}"
    using inv by (simp_all add: discovery_inv_def st_def)
  have disjoint: "unique_urls_within_site st \<inter> unique_urls_outside_site st = {}"
    unfolding within outside by blast
  have union: "unique_urls_within_site st \<union> unique_urls_outside_site st = unique_urls_extracted st"
    unfolding within outside by blast
  have fin_parts: "finite (unique_urls_within_site st)" "finite (unique_urls_outside_site st)"
    using fin union by (metis finite_Un)+
  have "card (unique_urls_extracted st)
        = card (unique_urls_within_site st) + card (unique_urls_outside_site st)"
    using card_Un_disjoint [OF fin_parts disjoint] union by simp
  moreover have "card (unique_urls_extracted st) \<le> length (discovered_urls st)"
  proof -
    have "unique_urls_extracted st = set (map fst (discovered_urls st))"
      using inv by (simp add: discovery_inv_def st_def)
    then have "card (unique_urls_extracted st) \<le> length (map fst (discovered_urls st))"
      by (simp only: card_length)
    then show ?thesis by simp
  qed
  moreover have "list_all (\<lambda>(u, indicator).
         indicator = (if is_within_site e c u then ''OK'' else ''N_OK'')) (discovered_urls st)"
    using inv by (simp add: discovery_inv_def st_def)
  ultimately show ?thesis
    using disjoint union
    by (simp add: final_stats_def get_statistics_def Let_def c_def [symmetric] st_def [symmetric])
qed


section \<open>The stop flag\<close>

lemma worker_step_sets_flag:
  assumes "worker_step e cfg c w = (c', w')" and "stop_crawling c'" and "\<not> stop_crawling c"
  shows "max_pages cfg \<le> pages_fetched c \<and> w' = Finished
         \<and> ((\<exists>n. w = CheckBudget n) \<or> (\<exists>u depth. w = CountFetch u depth))"
  using assms
  by (induction e cfg c w rule: worker_step.induct)
     (auto simp del: after_fetch.simps split: if_splits list.splits)

text \<open>
  C8, as the code has it. A worker tests the flag at the top of its loop and leaves the
  loop when it is set. A step that sets the flag is taken by a worker in one of the two
  blocks under \<^verbatim>\<open>fetch_lock\<close>, which finds \<open>pages_fetched\<close> at \<open>max_pages\<close> or above, and
  that worker is finished afterwards. A worker whose poll of the queue has come up empty
  five times in a row while \<open>pages_fetched\<close> is positive leaves its own loop; that step
  changes no shared field, the flag included.
\<close>

theorem stop_flag_set_by_budget_only:
  assumes "stop_crawling (shared (thread_step e cfg s i))" and "\<not> stop_crawling (shared s)"
  shows "max_pages cfg \<le> pages_fetched (shared s)
         \<and> ((\<exists>n. threads s ! i = CheckBudget n) \<or> (\<exists>u depth. threads s ! i = CountFetch u depth))
         \<and> threads (thread_step e cfg s i) ! i = Finished
         \<and> worker_step e cfg c (LoopTop n)
             = (c, if stop_crawling c then Finished else CheckBudget n)
         \<and> worker_step e cfg c (QueueEmpty n)
             = (c, if 5 \<le> n \<and> 0 < pages_fetched c then Finished else LoopTop n)"
proof -
  have i: "i < length (threads s)"
    using assms by (auto simp: thread_step_def split: if_splits)
  obtain c' w' where step: "worker_step e cfg (shared s) (threads s ! i) = (c', w')"
    by (cases "worker_step e cfg (shared s) (threads s ! i)")
  have next_state: "thread_step e cfg s i = \<lparr> shared = c', threads = (threads s)[i := w'] \<rparr>"
    using i step by (simp add: thread_step_def)
  have "stop_crawling c'"
    using assms(1) by (simp add: next_state)
  from worker_step_sets_flag [OF step this assms(2)] i show ?thesis
    by (simp add: next_state max_empty_attempts_def)
qed

theorem stop_flag_set_by_budget_only_witness:
  "stop_crawling (shared (thread_step small_site no_budget (run small_site no_budget [0]) 0))
   \<and> \<not> stop_crawling (shared (run small_site no_budget [0]))
   \<and> max_pages no_budget \<le> pages_fetched (shared (run small_site no_budget [0]))
   \<and> threads (run small_site no_budget [0]) ! 0 = CheckBudget 0"
proof -
  have set_now: "stop_crawling (shared (thread_step small_site no_budget (run small_site no_budget [0]) 0))"
    by code_simp
  have unset: "\<not> stop_crawling (shared (run small_site no_budget [0]))"
    by code_simp
  have "threads (run small_site no_budget [0]) ! 0 = CheckBudget 0"
    by code_simp
  with stop_flag_set_by_budget_only [OF set_now unset] set_now unset show ?thesis
    by simp
qed

text \<open>
  C8 as stated fails: the only page of this crawl answers 404, the worker then polls the
  empty queue five times and finishes, and the flag is still unset.
\<close>

theorem idle_exit_leaves_flag_unset:
  "threads (run small_site (one_thread missing_page) (replicate 28 0)) = [QueueEmpty 5]
   \<and> url_queue (shared (run small_site (one_thread missing_page) (replicate 28 0))) = []
   \<and> fetch_attempts (final_stats small_site (one_thread missing_page) (replicate 28 0))
       = [(missing_page, 404)]
   \<and> threads (run small_site (one_thread missing_page) (replicate 29 0)) = [Finished]
   \<and> stop_crawling (shared (run small_site (one_thread missing_page) (replicate 29 0))) = False"
  by code_simp

section \<open>Links put on the queue\<close>

lemma visited_urls_simps:
  "visited_urls (add_fetch_attempt u code st) = visited_urls st"
  "visited_urls (add_discovered_url u inside st) = visited_urls st"
  "visited_urls (add_successful_visit u sz n ct st) = insert u (visited_urls st)"
  by (simp_all add: add_fetch_attempt_def add_discovered_url_def add_successful_visit_def Let_def)

lemma successful_visits_simps:
  "successful_visits (add_fetch_attempt u code st) = successful_visits st"
  "successful_visits (add_discovered_url u inside st) = successful_visits st"
  "fst ` set (successful_visits (add_successful_visit u sz n ct st))
     = insert u (fst ` set (successful_visits st))"
  by (simp_all add: add_fetch_attempt_def add_discovered_url_def add_successful_visit_def Let_def)

lemma visits_inv_step:
  assumes "worker_step e cfg c w = (c', w')"
    and "visited_urls (stats c) = fst ` set (successful_visits (stats c))"
  shows "visited_urls (stats c') = fst ` set (successful_visits (stats c'))"
  using worker_step_stats [OF assms(1)]
  by (elim disjE exE) (simp_all add: visited_urls_simps successful_visits_simps assms(2))

lemma visits_inv_run:
  "visited_urls (final_stats e cfg schedule) = fst ` set (successful_visits (final_stats e cfg schedule))"
  unfolding final_stats_def
proof (rule run_invariant
    [where P = "\<lambda>s. visited_urls (stats (shared s)) = fst ` set (successful_visits (stats (shared s)))"])
  show "visited_urls (stats (shared (start e cfg)))
        = fst ` set (successful_visits (stats (shared (start e cfg))))"
    by (simp add: start_def new_crawler_def new_collector_def)
next
  fix s :: system and i
  assume inv: "visited_urls (stats (shared s)) = fst ` set (successful_visits (stats (shared s)))"
    and i: "i < length (threads s)"
  obtain c' w' where step: "worker_step e cfg (shared s) (threads s ! i) = (c', w')"
    by (cases "worker_step e cfg (shared s) (threads s ! i)")
  with i have "shared (thread_step e cfg s i) = c'"
    by (simp add: thread_step_def)
  with visits_inv_step [OF step inv]
  show "visited_urls (stats (shared (thread_step e cfg s i)))
        = fst ` set (successful_visits (stats (shared (thread_step e cfg s i))))"
    by simp
qed

text \<open>
  C3, as the code has it. A worker puts a link on the queue when the link is within the
  site and not in \<open>visited_urls\<close> at the moment of the test, and not otherwise. The put
  appends the entry and leaves the collector, and so \<open>visited_urls\<close>, as it was: in
  every run \<open>visited_urls\<close> holds exactly the URLs of the visit records.
\<close>

theorem push_tests_visits_only:
  "worker_step e cfg c (CheckLink pg (link # links))
     = (c, if is_within_site e c link \<and> link \<notin> visited_urls (stats c)
           then PutLink pg (link # links) else Discover pg links)
   \<and> worker_step e cfg c (PutLink pg (link # links))
     = (c \<lparr> url_queue := url_queue c @ [(link, pg_depth pg + 1)] \<rparr>, Discover pg links)
   \<and> stats (fst (worker_step e cfg c (PutLink pg (link # links)))) = stats c
   \<and> visited_urls (final_stats e cfg schedule)
     = fst ` set (successful_visits (final_stats e cfg schedule))"
  using visits_inv_run [of e cfg schedule] by (simp add: is_visited_def)

text \<open>
  C3 as stated fails: the front page carries the same link twice, and both pushes put it
  on the queue; \<open>visited_urls\<close> is still empty.
\<close>

theorem same_link_enqueued_twice:
  "url_queue (shared (run small_site (one_thread front_page) (replicate 15 0)))
     = [(missing_page, 1), (missing_page, 1)]
   \<and> visited_urls (final_stats small_site (one_thread front_page) (replicate 15 0)) = {}"
  by code_simp

section \<open>Fetching a URL again\<close>

lemma worker_step_visited_mono:
  assumes "worker_step e cfg c w = (c', w')"
  shows "visited_urls (stats c) \<subseteq> visited_urls (stats c')"
  using worker_step_stats [OF assms]
  by (elim disjE exE) (auto simp: visited_urls_simps)

lemma thread_step_visited_mono:
  "visited_urls (stats (shared s)) \<subseteq> visited_urls (stats (shared (thread_step e cfg s i)))"
proof (cases "i < length (threads s)")
  case True
  obtain c' w' where step: "worker_step e cfg (shared s) (threads s ! i) = (c', w')"
    by (cases "worker_step e cfg (shared s) (threads s ! i)")
  with True have "shared (thread_step e cfg s i) = c'"
    by (simp add: thread_step_def)
  with worker_step_visited_mono [OF step] show ?thesis by simp
next
  case False
  then show ?thesis by (simp add: thread_step_def)
qed

lemma run_visited_mono:
  "visited_urls (stats (shared (run e cfg schedule)))
   \<subseteq> visited_urls (stats (shared (run e cfg (schedule @ later))))"
proof (induction later rule: rev_induct)
  case Nil
  show ?case by simp
next
  case (snoc i later)
  have "run e cfg (schedule @ later @ [i]) = thread_step e cfg (run e cfg (schedule @ later)) i"
    by (simp add: run_def)
  with snoc thread_step_visited_mono [of "run e cfg (schedule @ later)" e cfg i]
  show ?case by auto
qed

text \<open>
  C1, as the code has it. Once a URL (its fragment cut) is in \<open>visited_urls\<close>, which
  happens when a successful visit of it is recorded, it stays there, and from then on
  \<^verbatim>\<open>is_valid_url\<close> rejects it: a worker that tests it goes back to the top of its loop
  without fetching.
\<close>

theorem visited_never_admitted_again:
  assumes "urldefrag e u \<in> visited_urls (final_stats e cfg schedule)"
  shows "\<not> is_valid_url e (shared (run e cfg (schedule @ later))) u
         \<and> worker_step e cfg (shared (run e cfg (schedule @ later))) (CheckValid u depth)
             = (shared (run e cfg (schedule @ later)), LoopTop 0)"
proof -
  have "urldefrag e u \<in> visited_urls (stats (shared (run e cfg (schedule @ later))))"
    using assms run_visited_mono [of e cfg schedule later] by (auto simp: final_stats_def)
  then have "\<not> is_valid_url e (shared (run e cfg (schedule @ later))) u"
    by (simp add: is_valid_url_def is_visited_def Let_def)
  then show ?thesis by simp
qed

theorem visited_never_admitted_again_witness:
  "urldefrag small_site front_page
     \<in> visited_urls (final_stats small_site (one_thread front_page) (replicate 17 0))
   \<and> \<not> is_valid_url small_site
         (shared (run small_site (one_thread front_page) (replicate 17 0 @ [0, 0]))) front_page"
proof -
  have visited: "urldefrag small_site front_page
      \<in> visited_urls (final_stats small_site (one_thread front_page) (replicate 17 0))"
    by code_simp
  from visited_never_admitted_again [OF visited, of "[0, 0]"] visited show ?thesis
    by simp
qed


text \<open>
  C1 as stated fails: the page linked twice answers 404, so it never enters
  \<open>visited_urls\<close>, and the single worker fetches it twice.
\<close>

theorem page_fetched_twice:
  "fetch_attempts (final_stats small_site (one_thread front_page) (replicate 35 0))
     = [(front_page, 200), (missing_page, 404), (missing_page, 404)]
   \<and> \<not> distinct (map fst
         (fetch_attempts (final_stats small_site (one_thread front_page) (replicate 35 0))))
   \<and> strip_fragment missing_page = missing_page"
  by code_simp

section \<open>The scope test\<close>

lemma endswith_iff: "endswith b a \<longleftrightarrow> (\<exists>p. b = p @ a)"
proof
  assume "endswith b a"
  then have "b = take (length b - length a) b @ a"
    by (metis append_take_drop_id endswith_def)
  then show "\<exists>p. b = p @ a" ..
next
  assume "\<exists>p. b = p @ a"
  then show "endswith b a" by (auto simp: endswith_def)
qed

lemma domain_run: "domain (shared (run e cfg schedule)) = netloc e (seed_url cfg)"
proof (rule run_invariant [where P = "\<lambda>s. domain (shared s) = netloc e (seed_url cfg)"])
  show "domain (shared (start e cfg)) = netloc e (seed_url cfg)"
    by (simp add: start_def new_crawler_def)
next
  fix s :: system and i
  assume inv: "domain (shared s) = netloc e (seed_url cfg)" and i: "i < length (threads s)"
  obtain c' w' where step: "worker_step e cfg (shared s) (threads s ! i) = (c', w')"
    by (cases "worker_step e cfg (shared s) (threads s ! i)")
  with i have "shared (thread_step e cfg s i) = c'"
    by (simp add: thread_step_def)
  with worker_step_domain [OF step] inv
  show "domain (shared (thread_step e cfg s i)) = netloc e (seed_url cfg)"
    by simp
qed

text \<open>
  C5, as the code has it. Throughout a crawl \<^verbatim>\<open>is_within_site\<close> holds of a URL exactly
  when its network location (\<^verbatim>\<open>netloc\<close>: the host as written, with any user
  information and port) equals the network location of the seed URL or ends with a dot
  followed by it.
\<close>

theorem within_site_by_netloc:
  "is_within_site e (shared (run e cfg schedule)) u
   \<longleftrightarrow> netloc e u = netloc e (seed_url cfg)
       \<or> (\<exists>sub. netloc e u = sub @ ''.'' @ netloc e (seed_url cfg))"
  by (simp add: is_within_site_def domain_run endswith_iff)

text \<open>
  C5 as stated fails: the crawl of \<^verbatim>\<open>http://example.com/\<close> has the domain
  \<^verbatim>\<open>example.com\<close>; the URL \<^verbatim>\<open>http://example.com:80/a\<close> has that very host, and is
  not within the site, because its network location carries the port. And the domain of
  a crawl is the whole network location of its seed: seeded with
  \<^verbatim>\<open>https://www.nytimes.com\<close>, as \<^verbatim>\<open>main\<close> does, the crawl takes \<^verbatim>\<open>https://nytimes.com/\<close>
  to be outside the site.
\<close>

theorem same_host_with_port_outside:
  "domain (new_crawler small_site (one_thread front_page)) = ''example.com''
   \<and> netloc small_site ''http://example.com:80/a'' = ''example.com:80''
   \<and> host_of_netloc (netloc small_site ''http://example.com:80/a'') = ''example.com''
   \<and> is_within_site small_site (new_crawler small_site (one_thread front_page))
        ''http://example.com:80/a'' = False
   \<and> domain (new_crawler small_site (one_thread ''https://www.nytimes.com''))
       = ''www.nytimes.com''
   \<and> is_within_site small_site (new_crawler small_site (one_thread ''https://www.nytimes.com''))
        ''https://nytimes.com/'' = False"
  by code_simp

section \<open>A robots.txt that cannot be read\<close>

lemma unread_parser_refuses: "can_fetch new_robot_parser u = False"
  by (simp add: can_fetch_def new_robot_parser_def)

lemma worker_step_blocked:
  assumes "worker_step e cfg c w = (c', w')" and "0 < max_pages cfg"
    and "robot_parser c = new_robot_parser" and "pages_fetched c = 0"
    and "\<not> stop_crawling c" and "fetch_attempts (stats c) = []" and "before_count w"
  shows "robot_parser c' = new_robot_parser \<and> pages_fetched c' = 0 \<and> \<not> stop_crawling c'
         \<and> fetch_attempts (stats c') = [] \<and> before_count w'"
  using assms
  by (induction e cfg c w rule: worker_step.induct)
     (auto simp: is_valid_url_def Let_def unread_parser_refuses simp del: after_fetch.simps
        split: if_splits list.splits)

lemma blocked_start:
  "robots_txt e = RobotsRaised \<Longrightarrow> blocked (start e cfg)"
  by (simp add: blocked_def start_def new_crawler_def new_collector_def list_all_iff)

lemma blocked_step:
  assumes inv: "blocked s" and i: "i < length (threads s)" and budget: "0 < max_pages cfg"
  shows "blocked (thread_step e cfg s i)"
proof -
  obtain c' w' where step: "worker_step e cfg (shared s) (threads s ! i) = (c', w')"
    by (cases "worker_step e cfg (shared s) (threads s ! i)")
  have next_state: "thread_step e cfg s i = \<lparr> shared = c', threads = (threads s)[i := w'] \<rparr>"
    using i step by (simp add: thread_step_def)
  have "before_count (threads s ! i)"
    using inv i by (simp add: blocked_def list_all_length)
  with worker_step_blocked [OF step budget] inv
  have "robot_parser c' = new_robot_parser \<and> pages_fetched c' = 0 \<and> \<not> stop_crawling c'
         \<and> fetch_attempts (stats c') = [] \<and> before_count w'"
    by (simp add: blocked_def)
  with inv show ?thesis
    by (simp add: next_state blocked_def list_all_update)
qed

lemma blocked_run:
  assumes "robots_txt e = RobotsRaised" and "0 < max_pages cfg"
  shows "blocked (run e cfg schedule)"
  by (rule run_invariant) (simp_all add: blocked_start blocked_step assms)

text \<open>
  C4 (the claim is that the filter is permissive when \<^verbatim>\<open>robots.txt\<close> cannot be
  loaded). When \<^verbatim>\<open>read\<close> raises, the constructor prints a warning and keeps the parser
  as it was made; \<^verbatim>\<open>can_fetch\<close> of such a parser answers \<^verbatim>\<open>False\<close> for every URL.
  So in every run \<^verbatim>\<open>is_valid_url\<close> rejects every URL, no page is ever fetched, and no
  worker ever finishes.
\<close>

theorem unread_robots_block_crawl:
  assumes "robots_txt e = RobotsRaised" and "0 < max_pages cfg"
  shows "\<not> is_valid_url e (shared (run e cfg schedule)) u
         \<and> fetch_attempts (final_stats e cfg schedule) = []
         \<and> pages_fetched (shared (run e cfg schedule)) = 0
         \<and> list_all (\<lambda>w. w \<noteq> Finished) (threads (run e cfg schedule))"
proof -
  have inv: "blocked (run e cfg schedule)"
    using assms by (rule blocked_run)
  then have "\<not> is_valid_url e (shared (run e cfg schedule)) u"
    by (simp add: blocked_def is_valid_url_def Let_def unread_parser_refuses)
  moreover have "list_all (\<lambda>w. w \<noteq> Finished) (threads (run e cfg schedule))"
    using inv by (auto simp: blocked_def list_all_iff)
  ultimately show ?thesis
    using inv by (simp add: blocked_def final_stats_def)
qed

theorem unread_robots_block_crawl_witness:
  "robots_txt small_site_no_robots = RobotsRaised \<and> 0 < max_pages (one_thread front_page)
   \<and> \<not> is_valid_url small_site_no_robots
         (shared (run small_site_no_robots (one_thread front_page) (replicate 6 0))) front_page
   \<and> fetch_attempts (final_stats small_site_no_robots (one_thread front_page) (replicate 6 0)) = []"
proof -
  have raised: "robots_txt small_site_no_robots = RobotsRaised"
    by (simp add: small_site_no_robots_def)
  have budget: "0 < max_pages (one_thread front_page)"
    by (simp add: one_thread_def)
  from unread_robots_block_crawl [OF raised budget, of "replicate 6 0" front_page] raised budget
  show ?thesis by simp
qed

end
